theory Spec2Isabelle
  imports Main
begin

section \<open>The blockchain event stream and its subscriptions\<close>

text \<open>
  A shallow embedding of the Go package \<^verbatim>\<open>blockchain\<close> (event subscription):
  the \<^verbatim>\<open>Event\<close> value object with its methods, the append-only list of
  \<^verbatim>\<open>eventElem\<close>, the \<^verbatim>\<open>eventStream\<close> with \<^verbatim>\<open>subscribe\<close>, \<^verbatim>\<open>Head\<close> and
  \<^verbatim>\<open>push\<close>, and the \<^verbatim>\<open>subscription\<close> with \<^verbatim>\<open>GetEvent\<close> and \<^verbatim>\<open>Close\<close>.

  Go pointers are addresses into explicit stores (lists, the address being the index;
  allocation appends a cell), \<^verbatim>\<open>nil\<close> is \<open>None\<close>. A Go panic is the \<open>Inl\<close> branch
  of a sum. \<^verbatim>\<open>GetEventCh\<close>, which forwards the results of \<^verbatim>\<open>GetEvent\<close> into a
  channel from a goroutine of its own, and the \<^verbatim>\<open>MockSubscription\<close> used in tests are
  left out.
\<close>

subsection \<open>Pointers and panics\<close>

type_synonym ref = "nat option"

datatype panic =
    NilDereference          \<comment> \<open>invalid memory address or nil pointer dereference\<close>
  | IndexOutOfRange         \<comment> \<open>index out of range\<close>
  | CloseOfClosedChannel    \<comment> \<open>close of closed channel\<close>

subsection \<open>Event\<close>

datatype EventType = EventHead | EventReorg | EventFork

text \<open>
  \<^verbatim>\<open>OldChain\<close> and \<^verbatim>\<open>NewChain\<close> are slices of header pointers; a slice is \<open>None\<close>
  when it is \<^verbatim>\<open>nil\<close>. \<^verbatim>\<open>Difficulty\<close> points into the store of big integers.
\<close>

record Event =
  OldChain :: "ref list option"
  NewChain :: "ref list option"
  Difficulty :: ref
  Type :: EventType
  Source :: string

text \<open>
  Modelled from the spec: \<^verbatim>\<open>types.Header.Copy\<close> is not part of the sources at hand.
  The spec calls the header a copyable value, opaque beyond field-wise copy, that is
  deep-copied at insertion. So a header is a value of an arbitrary type \<open>'h\<close> in a
  store, and \<open>Copy\<close> allocates a new cell holding the same value. Copying the fields
  of a \<^verbatim>\<open>nil\<close> receiver reads through a nil pointer.
\<close>

definition Copy :: "'h list \<Rightarrow> ref \<Rightarrow> panic + ('h list \<times> ref)" where
  "Copy hs h =
     (case h of
        None \<Rightarrow> Inl NilDereference
      | Some a \<Rightarrow> Inr (hs @ [hs ! a], Some (length hs)))"

text \<open>\<^verbatim>\<open>return e.NewChain[len(e.NewChain)-1]\<close>; a nil slice has length 0.\<close>

definition slice_len :: "ref list option \<Rightarrow> int" where
  "slice_len s = (case s of None \<Rightarrow> 0 | Some xs \<Rightarrow> int (length xs))"

definition slice_index :: "ref list option \<Rightarrow> int \<Rightarrow> panic + ref" where
  "slice_index s i =
     (if 0 \<le> i \<and> i < slice_len s
      then (case s of None \<Rightarrow> Inl IndexOutOfRange | Some xs \<Rightarrow> Inr (xs ! nat i))
      else Inl IndexOutOfRange)"

definition Header :: "Event \<Rightarrow> panic + ref" where
  "Header e = slice_index (NewChain e) (slice_len (NewChain e) - 1)"

text \<open>
  \<^verbatim>\<open>e.Difficulty = new(big.Int).Set(b)\<close>: a fresh big integer (value 0) is allocated,
  then set to the value \<^verbatim>\<open>b\<close> points to; \<^verbatim>\<open>Set\<close> reads through \<^verbatim>\<open>b\<close>.
\<close>

definition SetDifficulty :: "int list \<Rightarrow> Event \<Rightarrow> ref \<Rightarrow> panic + (int list \<times> Event)" where
  "SetDifficulty bs e b =
     (let z = length bs; bs1 = bs @ [0]
      in case b of
           None \<Rightarrow> Inl NilDereference
         | Some a \<Rightarrow> Inr (bs1[z := bs1 ! a], e\<lparr>Difficulty := Some z\<rparr>))"

text \<open>Go's \<^verbatim>\<open>append(s, x)\<close> on a slice that was made non-nil just before.\<close>

definition append_slice :: "ref list option \<Rightarrow> ref \<Rightarrow> ref list option" where
  "append_slice s x = (case s of None \<Rightarrow> Some [x] | Some xs \<Rightarrow> Some (xs @ [x]))"

definition AddNewHeader :: "'h list \<Rightarrow> Event \<Rightarrow> ref \<Rightarrow> panic + ('h list \<times> Event)" where
  "AddNewHeader hs e newHeader =
     (case Copy hs newHeader of
        Inl p \<Rightarrow> Inl p
      | Inr (hs1, header) \<Rightarrow>
          (let e1 = (if NewChain e = None then e\<lparr>NewChain := Some []\<rparr> else e)
           in Inr (hs1, e1\<lparr>NewChain := append_slice (NewChain e1) header\<rparr>)))"

definition AddOldHeader :: "'h list \<Rightarrow> Event \<Rightarrow> ref \<Rightarrow> panic + ('h list \<times> Event)" where
  "AddOldHeader hs e oldHeader =
     (case Copy hs oldHeader of
        Inl p \<Rightarrow> Inl p
      | Inr (hs1, header) \<Rightarrow>
          (let e1 = (if OldChain e = None then e\<lparr>OldChain := Some []\<rparr> else e)
           in Inr (hs1, e1\<lparr>OldChain := append_slice (OldChain e1) header\<rparr>)))"

text \<open>A caller writing another value through its own header pointer.\<close>

definition mutate :: "'v list \<Rightarrow> nat \<Rightarrow> 'v \<Rightarrow> 'v list" where
  "mutate st a v = st[a := v]"

subsection \<open>The event list, the stream, the subscriptions\<close>

record eventElem =
  event :: ref
  "next" :: ref

text \<open>
  \<^verbatim>\<open>eventStream\<close>: the mutex is not a field of the model; \<^verbatim>\<open>Head\<close> and \<^verbatim>\<open>push\<close>
  hold it from their first to their last statement, so each is one atomic step.
  The slice field \<^verbatim>\<open>updateCh\<close> is called \<open>updateChs\<close> here (the subscription has a
  field \<^verbatim>\<open>updateCh\<close> too).
\<close>

record eventStream =
  head :: ref
  updateChs :: "nat list option"

record subscription =
  updateCh :: nat
  closeCh :: nat
  elem :: ref

text \<open>
  Both channels of a subscription are unbuffered (\<^verbatim>\<open>make(chan void)\<close>). Nothing is
  ever sent on \<^verbatim>\<open>closeCh\<close> and \<^verbatim>\<open>updateCh\<close> is never closed, and the only send on
  \<^verbatim>\<open>updateCh\<close> is the non-blocking one of \<^verbatim>\<open>push\<close>, which succeeds exactly when a
  receiver is blocked on the channel. So what a channel contributes to the state is
  whether it is closed, and what the goroutine that consumes a subscription
  contributes is where it stands with respect to the \<^verbatim>\<open>select\<close> of \<^verbatim>\<open>GetEvent\<close>.
\<close>

datatype goroutine =
    Idle         \<comment> \<open>not waiting in the select\<close>
  | Parked       \<comment> \<open>blocked in the select, no case ready\<close>
  | GotUpdate    \<comment> \<open>woken by a receive from updateCh: will \<^verbatim>\<open>continue\<close> the loop\<close>
  | GotClose     \<comment> \<open>woken by the closed closeCh: will \<^verbatim>\<open>return nil\<close>\<close>

record world =
  elems :: "eventElem list"         \<comment> \<open>store of eventElem\<close>
  chans :: "bool list"              \<comment> \<open>store of channels: \<open>True\<close> when closed\<close>
  subs :: "subscription list"       \<comment> \<open>store of subscription objects\<close>
  gos :: "goroutine list"           \<comment> \<open>the consumer of each subscription\<close>
  stream :: eventStream

definition init :: world where
  "init = \<lparr>elems = [], chans = [], subs = [], gos = [],
           stream = \<lparr>head = None, updateChs = None\<rparr>\<rparr>"

definition registered :: "world \<Rightarrow> nat list" where
  "registered w = (case updateChs (stream w) of None \<Rightarrow> [] | Some cs \<Rightarrow> cs)"

definition Head :: "world \<Rightarrow> ref \<times> nat \<times> world" where
  "Head w =
     (let h = head (stream w);
          ch = length (chans w);
          w1 = w\<lparr>chans := chans w @ [False]\<rparr>;
          w2 = (if updateChs (stream w1) = None
                then w1\<lparr>stream := (stream w1)\<lparr>updateChs := Some []\<rparr>\<rparr> else w1);
          w3 = w2\<lparr>stream := (stream w2)\<lparr>updateChs := Some (registered w2 @ [ch])\<rparr>\<rparr>
      in (h, ch, w3))"

text \<open>\<open>subscribe\<close> returns the address of the new subscription object.\<close>

definition subscribe :: "world \<Rightarrow> nat \<times> world" where
  "subscribe w =
     (case Head w of (h, up, w1) \<Rightarrow>
        (let cl = length (chans w1);
             w2 = w1\<lparr>chans := chans w1 @ [False]\<rparr>;
             s = \<lparr>updateCh = up, closeCh = cl, elem = h\<rparr>
         in (length (subs w2), w2\<lparr>subs := subs w2 @ [s], gos := gos w2 @ [Idle]\<rparr>)))"

text \<open>
  \<^verbatim>\<open>select { case update <- void{}: default: }\<close> on the channel \<open>c\<close>: the send goes
  through when the consumer that receives from \<open>c\<close> is blocked in its select, and
  that consumer is woken; otherwise the default branch is taken and nothing changes.
\<close>

definition notify :: "world \<Rightarrow> nat \<Rightarrow> world" where
  "notify w c =
     w\<lparr>gos := map (\<lambda>(s, g). if updateCh s = c \<and> g = Parked then GotUpdate else g)
                   (zip (subs w) (gos w))\<rparr>"

definition push :: "world \<Rightarrow> ref \<Rightarrow> world" where
  "push w ev =
     (let newHead = length (elems w);
          es = elems w @ [\<lparr>event = ev, next = None\<rparr>];
          es1 = (case head (stream w) of
                   None \<Rightarrow> es
                 | Some h \<Rightarrow> es[h := (es ! h)\<lparr>next := Some newHead\<rparr>]);
          w1 = w\<lparr>elems := es1, stream := (stream w)\<lparr>head := Some newHead\<rparr>\<rparr>
      in foldl notify w1 (registered w1))"

text \<open>
  \<^verbatim>\<open>GetEvent\<close> of the subscription at address \<open>i\<close>. \<open>Returned r\<close>: the call returned
  the pointer \<open>r\<close>. \<open>Blocked\<close>: the call has not returned, its goroutine is blocked in
  the select; a later \<open>GetEvent\<close> step of the same subscription is this call going on.
  When the goroutine enters the select, no sender waits on \<^verbatim>\<open>updateCh\<close> (the only
  sender never waits), so the select returns at once only when \<^verbatim>\<open>closeCh\<close> is
  closed. One pass of the loop body is one step: the test of \<^verbatim>\<open>s.elem.next\<close> and the
  entry into the select are not interleaved with the other operations.
\<close>

datatype outcome = Returned ref | Blocked

definition loop_body :: "world \<Rightarrow> nat \<Rightarrow> panic + (outcome \<times> world)" where
  "loop_body w i =
     (let s = subs w ! i
      in case elem s of
           None \<Rightarrow> Inl NilDereference
         | Some a \<Rightarrow>
             (case next (elems w ! a) of
                Some n \<Rightarrow>
                  Inr (Returned (event (elems w ! n)),
                       w\<lparr>subs := (subs w)[i := s\<lparr>elem := Some n\<rparr>],
                         gos := (gos w)[i := Idle]\<rparr>)
              | None \<Rightarrow>
                  if chans w ! closeCh s
                  then Inr (Returned None, w\<lparr>gos := (gos w)[i := Idle]\<rparr>)
                  else Inr (Blocked, w\<lparr>gos := (gos w)[i := Parked]\<rparr>)))"

definition GetEvent :: "world \<Rightarrow> nat \<Rightarrow> panic + (outcome \<times> world)" where
  "GetEvent w i =
     (case gos w ! i of
        Idle \<Rightarrow> loop_body w i
      | GotUpdate \<Rightarrow> loop_body w i
      | Parked \<Rightarrow> Inr (Blocked, w)
      | GotClose \<Rightarrow> Inr (Returned None, w\<lparr>gos := (gos w)[i := Idle]\<rparr>))"

text \<open>
  \<^verbatim>\<open>close(s.closeCh)\<close>: closing a closed channel panics; closing wakes the consumer
  blocked in the select, which takes the \<^verbatim>\<open>closeCh\<close> case.
\<close>

definition Close :: "world \<Rightarrow> nat \<Rightarrow> panic + world" where
  "Close w i =
     (let s = subs w ! i
      in if chans w ! closeCh s then Inl CloseOfClosedChannel
         else Inr (w\<lparr>chans := (chans w)[closeCh s := True],
                     gos := (if gos w ! i = Parked then (gos w)[i := GotClose] else gos w)\<rparr>))"

subsection \<open>Histories\<close>

text \<open>
  The calls a program makes, in the order in which they take effect. A panic ends the
  program: the history stops there. A call on a subscription that does not exist is
  no call and is skipped.
\<close>

datatype op = Push ref | Subscribe | Get nat | CloseSub nat

fun step :: "world \<Rightarrow> op \<Rightarrow> panic + ((nat \<times> outcome) list \<times> world)" where
  "step w (Push ev) = Inr ([], push w ev)"
| "step w Subscribe = Inr ([], snd (subscribe w))"
| "step w (Get i) =
     (if i < length (subs w)
      then (case GetEvent w i of Inl p \<Rightarrow> Inl p | Inr (r, w1) \<Rightarrow> Inr ([(i, r)], w1))
      else Inr ([], w))"
| "step w (CloseSub i) =
     (if i < length (subs w)
      then (case Close w i of Inl p \<Rightarrow> Inl p | Inr w1 \<Rightarrow> Inr ([], w1))
      else Inr ([], w))"

text \<open>
  \<open>exec w ops\<close>: what the \<open>GetEvent\<close> steps answered, in order, each with its
  subscription, and how the history ended: with a panic, or in a world.
\<close>

fun exec :: "world \<Rightarrow> op list \<Rightarrow> (nat \<times> outcome) list \<times> (panic + world)" where
  "exec w [] = ([], Inr w)"
| "exec w (x # xs) =
     (case step w x of
        Inl p \<Rightarrow> ([], Inl p)
      | Inr (obs, w1) \<Rightarrow> (case exec w1 xs of (log, fin) \<Rightarrow> (obs @ log, fin)))"

definition pushed :: "op list \<Rightarrow> ref list" where
  "pushed ops = concat (map (\<lambda>x. case x of Push ev \<Rightarrow> [ev] | _ \<Rightarrow> []) ops)"

definition returned_to :: "nat \<Rightarrow> (nat \<times> outcome) list \<Rightarrow> ref list" where
  "returned_to i log =
     concat (map (\<lambda>(j, r). case r of Returned v \<Rightarrow> (if j = i then [v] else []) | Blocked \<Rightarrow> []) log)"

text \<open>\<open>k\<close> successive \<open>GetEvent\<close> steps of one subscription.\<close>

fun gets :: "world \<Rightarrow> nat \<Rightarrow> nat \<Rightarrow> panic + (outcome list \<times> world)" where
  "gets w i 0 = Inr ([], w)"
| "gets w i (Suc k) =
     (case GetEvent w i of
        Inl p \<Rightarrow> Inl p
      | Inr (r, w1) \<Rightarrow>
          (case gets w1 i k of Inl p \<Rightarrow> Inl p | Inr (rs, w2) \<Rightarrow> Inr (r # rs, w2)))"

subsection \<open>Well-formed worlds\<close>

text \<open>
  What every world built by the operations satisfies: each consumer belongs to a
  subscription; the entries are linked in allocation order and the head is the last
  of them; the position and the channels of a subscription exist.
\<close>

definition links :: "nat \<Rightarrow> ref list" where
  "links n = map (\<lambda>a. if Suc a < n then Some (Suc a) else None) [0..<n]"

definition ref_ok :: "nat \<Rightarrow> ref \<Rightarrow> bool" where
  "ref_ok n r = (case r of None \<Rightarrow> True | Some a \<Rightarrow> a < n)"

definition sub_ok :: "world \<Rightarrow> subscription \<Rightarrow> bool" where
  "sub_ok w s \<longleftrightarrow>
     ref_ok (length (elems w)) (elem s) \<and>
     updateCh s < length (chans w) \<and> closeCh s < length (chans w)"

definition well_formed :: "world \<Rightarrow> bool" where
  "well_formed w \<longleftrightarrow>
     length (gos w) = length (subs w) \<and>
     map next (elems w) = links (length (elems w)) \<and>
     head (stream w) = (if elems w = [] then None else Some (length (elems w) - 1)) \<and>
     list_all (sub_ok w) (subs w)"

text \<open>
  The world after \<open>GetEvent\<close> has moved the position of subscription \<open>i\<close> to the
  entry \<open>n\<close> and returned.
\<close>

definition advance :: "world \<Rightarrow> nat \<Rightarrow> nat \<Rightarrow> world" where
  "advance w i n =
     w\<lparr>subs := (subs w)[i := (subs w ! i)\<lparr>elem := Some n\<rparr>], gos := (gos w)[i := Idle]\<rparr>"

section \<open>Properties\<close>

subsection \<open>Event\<close>

lemma nat_pred_len: "xs \<noteq> [] \<Longrightarrow> nat (int (length xs) - 1) = length xs - 1"
  by (cases xs) auto

lemma SetDifficulty_Some:
  "a < length bs \<Longrightarrow>
   SetDifficulty bs e (Some a) = Inr (bs @ [bs ! a], e\<lparr>Difficulty := Some (length bs)\<rparr>)"
  by (simp add: SetDifficulty_def Let_def nth_append)

subsection \<open>What the operations change\<close>

lemma notify_fields [simp]:
  "elems (notify w c) = elems w" "chans (notify w c) = chans w"
  "subs (notify w c) = subs w" "stream (notify w c) = stream w"
  "length (gos (notify w c)) = min (length (subs w)) (length (gos w))"
  by (simp_all add: notify_def)

lemma foldl_notify_fields [simp]:
  "elems (foldl notify w cs) = elems w" "chans (foldl notify w cs) = chans w"
  "subs (foldl notify w cs) = subs w" "stream (foldl notify w cs) = stream w"
  by (induction cs arbitrary: w) simp_all

lemma gos_notify_nth:
  "k < length (subs w) \<Longrightarrow> k < length (gos w) \<Longrightarrow>
   gos (notify w c) ! k = (if updateCh (subs w ! k) = c \<and> gos w ! k = Parked then GotUpdate else gos w ! k)"
  by (simp add: notify_def)

lemma length_gos_foldl_notify:
  "length (gos w) = length (subs w) \<Longrightarrow> length (gos (foldl notify w cs)) = length (subs w)"
  by (induction cs arbitrary: w) simp_all

lemma gos_foldl_notify_nth:
  "length (gos w) = length (subs w) \<Longrightarrow> k < length (subs w) \<Longrightarrow>
   gos (foldl notify w cs) ! k =
     (if updateCh (subs w ! k) \<in> set cs \<and> gos w ! k = Parked then GotUpdate else gos w ! k)"
proof (induction cs arbitrary: w)
  case Nil
  then show ?case by simp
next
  case (Cons c cs)
  have len: "length (gos (notify w c)) = length (subs (notify w c))"
    using Cons.prems by simp
  have k: "k < length (subs (notify w c))" using Cons.prems by simp
  show ?case
    using Cons.IH [OF len k] Cons.prems by (auto simp: gos_notify_nth)
qed

lemma push_fields [simp]:
  "chans (push w ev) = chans w" "subs (push w ev) = subs w"
  "stream (push w ev) = (stream w)\<lparr>head := Some (length (elems w))\<rparr>"
  by (simp_all add: push_def Let_def)

lemma registered_push [simp]: "registered (push w ev) = registered w"
  by (simp add: registered_def)

lemma elems_push:
  "elems (push w ev) =
     (case head (stream w) of
        None \<Rightarrow> elems w @ [\<lparr>event = ev, next = None\<rparr>]
      | Some h \<Rightarrow> (elems w @ [\<lparr>event = ev, next = None\<rparr>])
                    [h := ((elems w @ [\<lparr>event = ev, next = None\<rparr>]) ! h)\<lparr>next := Some (length (elems w))\<rparr>])"
  by (simp add: push_def Let_def)

lemma length_elems_push [simp]: "length (elems (push w ev)) = Suc (length (elems w))"
  by (simp add: elems_push split: option.splits)

lemma gos_push_nth:
  "length (gos w) = length (subs w) \<Longrightarrow> k < length (subs w) \<Longrightarrow>
   gos (push w ev) ! k =
     (if updateCh (subs w ! k) \<in> set (registered w) \<and> gos w ! k = Parked
      then GotUpdate else gos w ! k)"
  by (simp add: push_def Let_def gos_foldl_notify_nth registered_def)

lemma length_gos_push [simp]:
  "length (gos w) = length (subs w) \<Longrightarrow> length (gos (push w ev)) = length (subs w)"
  by (simp add: push_def Let_def length_gos_foldl_notify)

lemma subscribe_eq:
  "subscribe w =
     (length (subs w),
      w\<lparr>chans := chans w @ [False, False],
        subs := subs w @ [\<lparr>updateCh = length (chans w), closeCh = Suc (length (chans w)),
                           elem = head (stream w)\<rparr>],
        gos := gos w @ [Idle],
        stream := (stream w)\<lparr>updateChs := Some (registered w @ [length (chans w)])\<rparr>\<rparr>)"
  by (simp add: subscribe_def Head_def Let_def registered_def)

subsection \<open>Well-formedness is kept\<close>

lemma links_nth: "a < n \<Longrightarrow> links n ! a = (if Suc a < n then Some (Suc a) else None)"
  by (simp add: links_def)

lemma length_links [simp]: "length (links n) = n"
  by (simp add: links_def)

lemma wf_next:
  assumes "well_formed w" and "a < length (elems w)"
  shows "next (elems w ! a) = (if Suc a < length (elems w) then Some (Suc a) else None)"
proof -
  have "map next (elems w) ! a = links (length (elems w)) ! a"
    using assms by (simp add: well_formed_def)
  then show ?thesis using assms(2) by (simp add: links_nth)
qed

lemma wf_head: "well_formed w \<Longrightarrow> head (stream w) = (if elems w = [] then None else Some (length (elems w) - 1))"
  by (simp add: well_formed_def)

lemma wf_len: "well_formed w \<Longrightarrow> length (gos w) = length (subs w)"
  by (simp add: well_formed_def)

lemma wf_sub_ok: "well_formed w \<Longrightarrow> i < length (subs w) \<Longrightarrow> sub_ok w (subs w ! i)"
  by (simp add: well_formed_def list_all_length)

lemma wf_init: "well_formed init"
  by (simp add: well_formed_def init_def links_def)

lemma elems_push_well_formed:
  assumes "well_formed w"
  shows "elems (push w ev) =
           (if elems w = [] then [] 
            else (elems w)[length (elems w) - 1 := (elems w ! (length (elems w) - 1))\<lparr>next := Some (length (elems w))\<rparr>])
           @ [\<lparr>event = ev, next = None\<rparr>]"
  using wf_head [OF assms]
  by (cases "elems w = []") (simp_all add: elems_push list_update_append nth_append)

lemma event_push_old:
  "well_formed w \<Longrightarrow> a < length (elems w) \<Longrightarrow> event (elems (push w ev) ! a) = event (elems w ! a)"
  by (auto simp add: elems_push_well_formed nth_append nth_list_update)

lemma event_push_new:
  "well_formed w \<Longrightarrow> elems (push w ev) ! length (elems w) = \<lparr>event = ev, next = None\<rparr>"
  by (simp add: elems_push_well_formed nth_append)

lemma next_push_old:
  "well_formed w \<Longrightarrow> a < length (elems w) \<Longrightarrow>
   next (elems (push w ev) ! a) = (if Suc a = length (elems w) then Some (Suc a) else next (elems w ! a))"
  by (auto simp add: elems_push_well_formed nth_append nth_list_update)

lemma map_event_push:
  assumes "well_formed w"
  shows "map event (elems (push w ev)) = map event (elems w) @ [ev]"
  by (rule nth_equalityI) 
     (auto simp: nth_append event_push_old [OF assms] event_push_new [OF assms] less_Suc_eq)

lemma sub_ok_mono:
  "sub_ok w s \<Longrightarrow> length (elems w) \<le> length (elems w1) \<Longrightarrow> length (chans w) \<le> length (chans w1) \<Longrightarrow>
   sub_ok w1 s"
  by (auto simp: sub_ok_def ref_ok_def split: option.splits)

lemma wf_push:
  assumes "well_formed w"
  shows "well_formed (push w ev)"
proof -
  have "map next (elems (push w ev)) = links (Suc (length (elems w)))"
  proof (rule nth_equalityI)
    show "length (map next (elems (push w ev))) = length (links (Suc (length (elems w))))"
      by simp
  next
    fix a assume "a < length (map next (elems (push w ev)))"
    then have a: "a < Suc (length (elems w))" by simp
    show "map next (elems (push w ev)) ! a = links (Suc (length (elems w))) ! a"
    proof (cases "a < length (elems w)")
      case True
      then show ?thesis
        using a wf_next [OF assms True] by (simp add: links_nth next_push_old [OF assms])
    next
      case False
      with a have "a = length (elems w)" by simp
      then show ?thesis by (simp add: links_nth event_push_new [OF assms])
    qed
  qed
  moreover have "list_all (sub_ok (push w ev)) (subs w)"
    using assms by (auto simp: well_formed_def list_all_iff intro: sub_ok_mono)
  moreover have "elems (push w ev) \<noteq> []"
    using length_elems_push [of w ev] by (metis Zero_not_Suc list.size(3))
  ultimately show ?thesis
    using assms by (simp add: well_formed_def)
qed

lemma wf_foldl_push: "well_formed w \<Longrightarrow> well_formed (foldl push w evs)"
  by (induction evs arbitrary: w) (simp_all add: wf_push)

lemma map_event_foldl_push:
  "well_formed w \<Longrightarrow> map event (elems (foldl push w evs)) = map event (elems w) @ evs"
  by (induction evs arbitrary: w) (simp_all add: wf_push map_event_push)

lemma subs_foldl_push [simp]: "subs (foldl push w evs) = subs w"
  by (induction evs arbitrary: w) simp_all

lemma chans_foldl_push [simp]: "chans (foldl push w evs) = chans w"
  by (induction evs arbitrary: w) simp_all

lemma wf_subscribe:
  assumes "well_formed w"
  shows "well_formed (snd (subscribe w))"
proof -
  have "sub_ok (snd (subscribe w)) s" if "sub_ok w s" for s
    using that by (rule sub_ok_mono) (simp_all add: subscribe_eq)
  moreover have "sub_ok (snd (subscribe w)) 
     \<lparr>updateCh = length (chans w), closeCh = Suc (length (chans w)), elem = head (stream w)\<rparr>"
    using wf_head [OF assms] by (simp add: sub_ok_def ref_ok_def subscribe_eq)
  ultimately show ?thesis
    using assms by (simp add: well_formed_def subscribe_eq list_all_iff)
qed

lemma sub_ok_gos [simp]: "sub_ok (w\<lparr>gos := g\<rparr>) s = sub_ok w s"
  by (simp add: sub_ok_def)

lemma sub_ok_advance:
  "sub_ok w s \<Longrightarrow> n < length (elems w) \<Longrightarrow> sub_ok w (s\<lparr>elem := Some n\<rparr>)"
  by (simp add: sub_ok_def ref_ok_def)

lemma sub_ok_subs [simp]: "sub_ok (w\<lparr>subs := ss\<rparr>) s = sub_ok w s"
  by (simp add: sub_ok_def)

lemma loop_body_cases:
  assumes "well_formed w" and "i < length (subs w)"
  shows "loop_body w i =
     (case elem (subs w ! i) of
        None \<Rightarrow> Inl NilDereference
      | Some a \<Rightarrow>
          if Suc a < length (elems w)
          then Inr (Returned (event (elems w ! Suc a)),
                    w\<lparr>subs := (subs w)[i := (subs w ! i)\<lparr>elem := Some (Suc a)\<rparr>],
                      gos := (gos w)[i := Idle]\<rparr>)
          else if chans w ! closeCh (subs w ! i)
               then Inr (Returned None, w\<lparr>gos := (gos w)[i := Idle]\<rparr>)
               else Inr (Blocked, w\<lparr>gos := (gos w)[i := Parked]\<rparr>))"
proof (cases "elem (subs w ! i)")
  case None
  then show ?thesis by (simp add: loop_body_def)
next
  case (Some a)
  have "sub_ok w (subs w ! i)" using assms by (rule wf_sub_ok)
  with Some have "a < length (elems w)" by (simp add: sub_ok_def ref_ok_def)
  from wf_next [OF assms(1) this] Some show ?thesis
    by (simp add: loop_body_def Let_def)
qed

lemma wf_gos_update:
  "well_formed w \<Longrightarrow> well_formed (w\<lparr>gos := (gos w)[i := g]\<rparr>)"
  by (simp add: well_formed_def list_all_iff)

lemma wf_advance:
  assumes "well_formed w" and "i < length (subs w)" and "n < length (elems w)"
  shows "well_formed (w\<lparr>subs := (subs w)[i := (subs w ! i)\<lparr>elem := Some n\<rparr>], gos := (gos w)[i := g]\<rparr>)"
proof -
  have "sub_ok w s" if "s \<in> set ((subs w)[i := (subs w ! i)\<lparr>elem := Some n\<rparr>])" for s
  proof -
    from that have "s = (subs w ! i)\<lparr>elem := Some n\<rparr> \<or> s \<in> set (subs w)"
      by (auto dest: set_update_subset_insert [THEN subsetD])
    moreover have "sub_ok w (subs w ! i)" using assms by (simp add: wf_sub_ok)
    ultimately show ?thesis
      using assms by (auto simp: sub_ok_advance well_formed_def list_all_iff)
  qed
  then show ?thesis
    using assms(1) by (simp add: well_formed_def list_all_iff)
qed

lemma wf_loop_body:
  assumes "well_formed w" and "i < length (subs w)" and "loop_body w i = Inr (r, w1)"
  shows "well_formed w1"
  using assms(3) unfolding loop_body_cases [OF assms(1,2)]
  by (auto split: option.splits if_splits intro: wf_gos_update wf_advance assms)

lemma wf_GetEvent:
  assumes "well_formed w" and "i < length (subs w)" and "GetEvent w i = Inr (r, w1)"
  shows "well_formed w1"
  using assms
  by (auto simp: GetEvent_def split: goroutine.splits intro: wf_gos_update wf_loop_body)

lemma wf_Close:
  assumes "well_formed w" and "Close w i = Inr w1"
  shows "well_formed w1"
  using assms
  by (auto simp: Close_def Let_def well_formed_def list_all_iff sub_ok_def split: if_splits)

lemma wf_step:
  assumes "well_formed w" and "step w x = Inr (obs, w1)"
  shows "well_formed w1"
proof (cases x)
  case (Push ev)
  with assms show ?thesis by (auto intro: wf_push)
next
  case Subscribe
  with assms show ?thesis by (auto intro: wf_subscribe)
next
  case (Get i)
  with assms show ?thesis
    by (auto split: if_splits sum.splits intro: wf_GetEvent)
next
  case (CloseSub i)
  with assms show ?thesis
    by (auto split: if_splits sum.splits intro: wf_Close)
qed

lemma wf_exec:
  "well_formed w \<Longrightarrow> exec w ops = (log, Inr w1) \<Longrightarrow> well_formed w1"
proof (induction ops arbitrary: w log)
  case Nil
  then show ?case by simp
next
  case (Cons x xs)
  from Cons.prems(2) obtain obs w2 log2 where
    s: "step w x = Inr (obs, w2)" and e: "exec w2 xs = (log2, Inr w1)"
    by (auto split: sum.splits prod.splits)
  from wf_step [OF Cons.prems(1) s] e show ?case by (rule Cons.IH)
qed

text \<open>Every world a history builds from the empty stream is well-formed.\<close>

lemma well_formed_reachable: "exec init ops = (log, Inr w) \<Longrightarrow> well_formed w"
  using wf_init by (rule wf_exec)

subsection \<open>Successive calls of GetEvent\<close>

lemma world_gos_same [simp]: "gos w ! i = g \<Longrightarrow> w\<lparr>gos := (gos w)[i := g]\<rparr> = w"
  by (cases w) auto

lemma GetEvent_Idle: "gos w ! i = Idle \<Longrightarrow> GetEvent w i = loop_body w i"
  by (simp add: GetEvent_def)

lemma GetEvent_Parked: "gos w ! i = Parked \<Longrightarrow> GetEvent w i = Inr (Blocked, w)"
  by (simp add: GetEvent_def)

lemma GetEvent_nil:
  "well_formed w \<Longrightarrow> i < length (subs w) \<Longrightarrow> gos w ! i = Idle \<Longrightarrow> elem (subs w ! i) = None \<Longrightarrow>
   GetEvent w i = Inl NilDereference"
  by (simp add: GetEvent_Idle loop_body_cases)

lemma advance_fields [simp]:
  "elems (advance w i n) = elems w" "chans (advance w i n) = chans w"
  "stream (advance w i n) = stream w"
  "length (subs (advance w i n)) = length (subs w)"
  "length (gos (advance w i n)) = length (gos w)"
  by (simp_all add: advance_def)

lemma advance_sub [simp]:
  "i < length (subs w) \<Longrightarrow> elem (subs (advance w i n) ! i) = Some n"
  "i < length (subs w) \<Longrightarrow> closeCh (subs (advance w i n) ! i) = closeCh (subs w ! i)"
  "i < length (subs w) \<Longrightarrow> updateCh (subs (advance w i n) ! i) = updateCh (subs w ! i)"
  by (simp_all add: advance_def)

lemma advance_gos [simp]: "i < length (gos w) \<Longrightarrow> gos (advance w i n) ! i = Idle"
  by (simp add: advance_def)

lemma wf_advance_pos: "well_formed w \<Longrightarrow> i < length (subs w) \<Longrightarrow> n < length (elems w)
   \<Longrightarrow> well_formed (advance w i n)"
  unfolding advance_def by (rule wf_advance)

lemma GetEvent_next:
  assumes "well_formed w" "i < length (subs w)" "gos w ! i = Idle"
    "elem (subs w ! i) = Some a" "Suc a < length (elems w)"
  shows "GetEvent w i = Inr (Returned (event (elems w ! Suc a)), advance w i (Suc a))"
  using assms by (simp add: GetEvent_Idle loop_body_cases advance_def)

lemma GetEvent_tail:
  assumes "well_formed w" "i < length (subs w)" "gos w ! i = Idle"
    "elem (subs w ! i) = Some a" "\<not> Suc a < length (elems w)"
  shows "GetEvent w i =
           (if chans w ! closeCh (subs w ! i) then Inr (Returned None, w)
            else Inr (Blocked, w\<lparr>gos := (gos w)[i := Parked]\<rparr>))"
  using assms by (simp add: GetEvent_Idle loop_body_cases)

lemma gets_Parked: "gos w ! i = Parked \<Longrightarrow> gets w i k = Inr (replicate k Blocked, w)"
  by (induction k) (simp_all add: GetEvent_Parked)

lemma gets_add:
  "gets w i (k + m) =
     (case gets w i k of
        Inl p \<Rightarrow> Inl p
      | Inr (rs, w1) \<Rightarrow>
          (case gets w1 i m of Inl p \<Rightarrow> Inl p | Inr (rs2, w2) \<Rightarrow> Inr (rs @ rs2, w2)))"
  by (induction k arbitrary: w) (auto split: sum.splits prod.splits)

lemma gets_drain:
  assumes "well_formed w" "i < length (subs w)" "gos w ! i = Idle"
    "elem (subs w ! i) = Some a" "a + k < length (elems w)"
  shows "gets w i k =
           Inr (map Returned (take k (drop (Suc a) (map event (elems w)))), 
                if k = 0 then w else advance w i (a + k))"
  using assms
proof (induction k arbitrary: w a)
  case 0
  then show ?case by simp
next
  case (Suc k)
  let ?w = "advance w i (Suc a)"
  have g: "GetEvent w i = Inr (Returned (event (elems w ! Suc a)), ?w)"
    using Suc.prems by (intro GetEvent_next) simp_all
  have len: "length (gos w) = length (subs w)" using Suc.prems(1) by (rule wf_len)
  have wf1: "well_formed ?w" using Suc.prems by (intro wf_advance_pos) simp_all
  have ih: "gets ?w i k =
      Inr (map Returned (take k (drop (Suc (Suc a)) (map event (elems ?w)))),
           if k = 0 then ?w else advance ?w i (Suc a + k))"
    using Suc.prems len by (intro Suc.IH wf1) simp_all
  have d: "drop (Suc a) (map event (elems w)) =
          event (elems w ! Suc a) # drop (Suc (Suc a)) (map event (elems w))"
    using Suc.prems(5) by (simp add: Cons_nth_drop_Suc [symmetric])
  have adv: "advance ?w i (Suc a + k) = advance w i (a + Suc k)"
    using Suc.prems(2) by (simp add: advance_def)
  show ?case
    using g ih d adv by simp
qed

lemma take_pad: "k \<le> m \<Longrightarrow> take k (ys @ replicate m z) = take k (ys @ replicate k z)"
  by (auto simp: min_def)

lemma gets_closed:
  assumes "well_formed w" "i < length (subs w)" "gos w ! i = Idle"
    "elem (subs w ! i) = Some a" "chans w ! closeCh (subs w ! i)"
  shows "\<exists>w1. gets w i k =
           Inr (take k (map Returned (drop (Suc a) (map event (elems w))) @ replicate k (Returned None)), w1)"
  using assms
proof (induction k arbitrary: w a)
  case 0
  then show ?case by simp
next
  case (Suc k)
  have len: "length (gos w) = length (subs w)" using Suc.prems(1) by (rule wf_len)
  show ?case
  proof (cases "Suc a < length (elems w)")
    case True
    let ?w = "advance w i (Suc a)"
    have g: "GetEvent w i = Inr (Returned (event (elems w ! Suc a)), ?w)"
      using Suc.prems True by (intro GetEvent_next) simp_all
    have wf1: "well_formed ?w" using Suc.prems True by (intro wf_advance_pos) simp_all
    have "\<exists>w1. gets ?w i k =
        Inr (take k (map Returned (drop (Suc (Suc a)) (map event (elems ?w))) @ replicate k (Returned None)), w1)"
      using Suc.prems len by (intro Suc.IH wf1) simp_all
    then obtain w1 where ih: "gets ?w i k =
        Inr (take k (map Returned (drop (Suc (Suc a)) (map event (elems w))) @ replicate k (Returned None)), w1)"
      by auto
    have d: "drop (Suc a) (map event (elems w)) =
          event (elems w ! Suc a) # drop (Suc (Suc a)) (map event (elems w))"
      using True by (simp add: Cons_nth_drop_Suc [symmetric])
    have "take k (map Returned (drop (Suc (Suc a)) (map event (elems w))) @ replicate (Suc k) (Returned None))
        = take k (map Returned (drop (Suc (Suc a)) (map event (elems w))) @ replicate k (Returned None))"
      by (rule take_pad) simp
    then show ?thesis
      using g ih d by (simp del: replicate_Suc)
  next
    case False
    have g: "GetEvent w i = Inr (Returned None, w)"
      using Suc.prems False by (simp add: GetEvent_tail)
    obtain w1 where ih: "gets w i k =
        Inr (take k (map Returned (drop (Suc a) (map event (elems w))) @ replicate k (Returned None)), w1)"
      using Suc.IH [OF Suc.prems] by auto
    have "drop (Suc a) (map event (elems w)) = []" using False by simp
    then show ?thesis using g ih by simp
  qed
qed

lemma advance_same:
  "i < length (subs w) \<Longrightarrow> elem (subs w ! i) = Some a \<Longrightarrow> gos w ! i = Idle \<Longrightarrow> advance w i a = w"
proof -
  assume a: "i < length (subs w)" "elem (subs w ! i) = Some a" "gos w ! i = Idle"
  have "(subs w ! i)\<lparr>elem := Some a\<rparr> = subs w ! i" using a(2) by (cases "subs w ! i") simp
  then have "(subs w)[i := (subs w ! i)\<lparr>elem := Some a\<rparr>] = subs w" by simp
  moreover have "(gos w)[i := Idle] = gos w" using a(3) by (metis list_update_id)
  ultimately show ?thesis by (simp add: advance_def)
qed

lemma gets_pending:
  assumes "well_formed w" "i < length (subs w)" "gos w ! i = Idle"
    "elem (subs w ! i) = Some a" "a + k < length (elems w)"
  shows "gets w i k =
           Inr (map Returned (take k (drop (Suc a) (map event (elems w)))), advance w i (a + k))"
  using gets_drain [OF assms] advance_same [OF assms(2,4,3)] by (cases "k = 0") simp_all

lemma gets_blocked:
  assumes "well_formed w" "i < length (subs w)" "gos w ! i = Idle"
    "elem (subs w ! i) = Some a" "\<not> Suc a < length (elems w)" "\<not> chans w ! closeCh (subs w ! i)"
  shows "\<exists>w1. gets w i k = Inr (replicate k Blocked, w1)"
proof (cases k)
  case 0
  then show ?thesis by simp
next
  case (Suc m)
  let ?w = "w\<lparr>gos := (gos w)[i := Parked]\<rparr>"
  have "GetEvent w i = Inr (Blocked, ?w)" using assms by (simp add: GetEvent_tail)
  moreover have "gos ?w ! i = Parked" using assms(2) wf_len [OF assms(1)] by simp
  then have "gets ?w i m = Inr (replicate m Blocked, ?w)" by (rule gets_Parked)
  ultimately show ?thesis using Suc by simp
qed

lemma gos_push_Idle:
  "well_formed w \<Longrightarrow> i < length (subs w) \<Longrightarrow> gos w ! i = Idle \<Longrightarrow> gos (push w ev) ! i = Idle"
  by (simp add: gos_push_nth wf_len)

lemma gos_foldl_push_Idle:
  "well_formed w \<Longrightarrow> i < length (subs w) \<Longrightarrow> gos w ! i = Idle \<Longrightarrow> gos (foldl push w evs) ! i = Idle"
  by (induction evs arbitrary: w) (simp_all add: wf_push gos_push_Idle)

lemma new_subscription:
  assumes "well_formed w" and "subscribe w = (i, w1)"
  shows "i = length (subs w)" "i < length (subs w1)" "well_formed w1" "gos w1 ! i = Idle"
    "elem (subs w1 ! i) = head (stream w)" "\<not> chans w1 ! closeCh (subs w1 ! i)"
    "elems w1 = elems w"
proof -
  show i: "i = length (subs w)" using assms(2) by (simp add: subscribe_eq)
  have w1: "w1 = snd (subscribe w)" using assms(2) by simp
  show "well_formed w1" unfolding w1 using assms(1) by (rule wf_subscribe)
  show "i < length (subs w1)" using i by (simp add: w1 subscribe_eq)
  show "gos w1 ! i = Idle" using i wf_len [OF assms(1)] by (simp add: w1 subscribe_eq nth_append)
  show "elem (subs w1 ! i) = head (stream w)" using i by (simp add: w1 subscribe_eq)
  show "\<not> chans w1 ! closeCh (subs w1 ! i)" using i by (simp add: w1 subscribe_eq nth_append)
  show "elems w1 = elems w" by (simp add: w1 subscribe_eq)
qed

lemma gets_after_subscribe:
  assumes "well_formed w" and "head (stream w) \<noteq> None" and "subscribe w = (i, w1)"
  shows "\<exists>w2. gets (foldl push w1 evs) i (length evs + k) =
                 Inr (map Returned evs @ replicate k Blocked, w2)"
proof -
  note s = new_subscription [OF assms(1,3)]
  let ?n = "length (elems w)" and ?W = "foldl push w1 evs"
  have n: "elems w \<noteq> []" "head (stream w) = Some (?n - 1)"
    using wf_head [OF assms(1)] assms(2) by (auto split: if_splits)
  have wfW: "well_formed ?W" using s(3) by (rule wf_foldl_push)
  have i: "i < length (subs ?W)" using s(2) by simp
  have idle: "gos ?W ! i = Idle" using s(3,2,4) by (rule gos_foldl_push_Idle)
  have pos: "elem (subs ?W ! i) = Some (?n - 1)" using s(5) n(2) by simp
  have ev: "map event (elems ?W) = map event (elems w) @ evs"
    using map_event_foldl_push [OF s(3), of evs] s(7) by simp
  then have "length (map event (elems ?W)) = ?n + length evs" by simp
  then have len: "length (elems ?W) = ?n + length evs" by simp
  obtain m where m: "?n = Suc m" using n(1) by (cases "elems w") auto
  have pos': "elem (subs ?W ! i) = Some m" using pos m by simp
  have "gets ?W i (length evs) =
        Inr (map Returned (take (length evs) (drop (Suc m) (map event (elems ?W)))),
             advance ?W i (m + length evs))"
    using wfW i idle pos' len m by (intro gets_pending) simp_all
  then have 1: "gets ?W i (length evs) = Inr (map Returned evs, advance ?W i (m + length evs))"
    using ev m by simp
  let ?V = "advance ?W i (m + length evs)"
  have wfV: "well_formed ?V" using wfW i len m by (intro wf_advance_pos) simp_all
  have "\<exists>w2. gets ?V i k = Inr (replicate k Blocked, w2)"
    using wfV i s(6) len m wf_len [OF wfW]
    by (intro gets_blocked [where a = "m + length evs"]) simp_all
  then obtain w2 where 2: "gets ?V i k = Inr (replicate k Blocked, w2)" by auto
  show ?thesis using 1 2 by (simp add: gets_add)
qed



subsection \<open>Histories\<close>

lemma GetEvent_result:
  assumes "well_formed w" and "j < length (subs w)" and "GetEvent w j = Inr (r, w1)"
  shows "elems w1 = elems w \<and> chans w1 = chans w \<and> stream w1 = stream w \<and>
         ((r = Returned None \<or> r = Blocked) \<and> subs w1 = subs w \<or>
          (\<exists>a. elem (subs w ! j) = Some a \<and> Suc a < length (elems w) \<and>
               r = Returned (event (elems w ! Suc a)) \<and>
               subs w1 = (subs w)[j := (subs w ! j)\<lparr>elem := Some (Suc a)\<rparr>]))"
proof (cases "gos w ! j = Idle \<or> gos w ! j = GotUpdate")
  case True
  then have "loop_body w j = Inr (r, w1)" using assms(3) by (auto simp: GetEvent_def)
  then show ?thesis
    unfolding loop_body_cases [OF assms(1,2)]
    by (auto split: option.splits if_splits)
next
  case False
  then show ?thesis using assms(3)
    by (cases "gos w ! j") (auto simp: GetEvent_def)
qed

lemma Close_result:
  "Close w j = Inr w1 \<Longrightarrow> elems w1 = elems w \<and> subs w1 = subs w \<and> stream w1 = stream w \<and> 
     length (chans w1) = length (chans w)"
  by (auto simp: Close_def Let_def split: if_splits)

lemma returned_to_append [simp]:
  "returned_to i (xs @ ys) = returned_to i xs @ returned_to i ys"
  by (simp add: returned_to_def)

lemma returned_to_Nil [simp]: "returned_to i [] = []"
  by (simp add: returned_to_def)

lemma returned_to_single:
  "returned_to i [(j, r)] = (case r of Returned v \<Rightarrow> if j = i then [v] else [] | Blocked \<Rightarrow> [])"
  by (simp add: returned_to_def)

lemma pushed_Cons:
  "pushed (x # xs) = (case x of Push ev \<Rightarrow> [ev] | _ \<Rightarrow> []) @ pushed xs"
  by (simp add: pushed_def)

lemma returned_after:
  assumes "well_formed w" and "i < length (subs w)"
    and "\<forall>a. elem (subs w ! i) = Some a \<longrightarrow> n0 \<le> Suc a"
    and "\<forall>a. n0 \<le> a \<and> a < length (elems w) \<longrightarrow> event (elems w ! a) \<in> S"
    and "set (pushed ops) \<subseteq> S"
  shows "set (returned_to i (fst (exec w ops))) \<subseteq> insert None S"
  using assms
proof (induction ops arbitrary: w)
  case Nil
  then show ?case by simp
next
  case (Cons x xs)
  have S: "set (pushed xs) \<subseteq> S" using Cons.prems(5) by (auto simp: pushed_Cons)
  show ?case
  proof (cases "step w x")
    case (Inl p)
    then show ?thesis by simp
  next
    case (Inr res)
    obtain obs w1 where res: "res = (obs, w1)" by (cases res)
    have wf1: "well_formed w1" using Cons.prems(1) Inr res by (auto intro: wf_step)
    have inv: "i < length (subs w1) \<and> (\<forall>a. elem (subs w1 ! i) = Some a \<longrightarrow> n0 \<le> Suc a) \<and>
               (\<forall>a. n0 \<le> a \<and> a < length (elems w1) \<longrightarrow> event (elems w1 ! a) \<in> S) \<and>
               set (returned_to i obs) \<subseteq> insert None S"
    proof (cases x)
      case (Push ev)
      then have w1: "w1 = push w ev" and obs: "obs = []" using Inr res by auto
      have "ev \<in> S" using Cons.prems(5) Push by (simp add: pushed_Cons)
      moreover have "event (elems w1 ! a) = (if a < length (elems w) then event (elems w ! a) else ev)"
        if "a < length (elems w1)" for a
        using that event_push_old [OF Cons.prems(1), of a ev] event_push_new [OF Cons.prems(1), of ev]
        by (auto simp: w1 less_Suc_eq)
      ultimately show ?thesis using Cons.prems(2,3,4) by (auto simp: w1 obs)
    next
      case Subscribe
      then have w1: "w1 = snd (subscribe w)" and obs: "obs = []" using Inr res by auto
      show ?thesis using Cons.prems(2,3,4) by (simp add: w1 obs subscribe_eq nth_append)
    next
      case (Get j)
      show ?thesis
      proof (cases "j < length (subs w)")
        case False
        then show ?thesis using Get Inr res Cons.prems(2,3,4) by auto
      next
        case True
        then obtain r where g: "GetEvent w j = Inr (r, w1)" and obs: "obs = [(j, r)]"
          using Get Inr res by (auto split: sum.splits)
        note R = GetEvent_result [OF Cons.prems(1) True g]
        from R have "(r = Returned None \<or> r = Blocked) \<and> subs w1 = subs w \<or>
          (\<exists>a. elem (subs w ! j) = Some a \<and> Suc a < length (elems w) \<and>
               r = Returned (event (elems w ! Suc a)) \<and>
               subs w1 = (subs w)[j := (subs w ! j)\<lparr>elem := Some (Suc a)\<rparr>])" by simp
        then show ?thesis
        proof
          assume "(r = Returned None \<or> r = Blocked) \<and> subs w1 = subs w"
          then show ?thesis using R Cons.prems(2,3,4) by (auto simp: obs returned_to_single)
        next
          assume "\<exists>a. elem (subs w ! j) = Some a \<and> Suc a < length (elems w) \<and>
               r = Returned (event (elems w ! Suc a)) \<and>
               subs w1 = (subs w)[j := (subs w ! j)\<lparr>elem := Some (Suc a)\<rparr>]"
          then obtain a where a: "elem (subs w ! j) = Some a" "Suc a < length (elems w)"
            "r = Returned (event (elems w ! Suc a))"
            "subs w1 = (subs w)[j := (subs w ! j)\<lparr>elem := Some (Suc a)\<rparr>]" by auto
          have e: "elems w1 = elems w" using R by simp
          show ?thesis
          proof (cases "j = i")
            case True
            have n: "n0 \<le> Suc a" using Cons.prems(3) a(1) True by simp
            then have "event (elems w ! Suc a) \<in> S" using Cons.prems(4) a(2) by simp
            then show ?thesis using Cons.prems(2,4) True a n
              by (simp add: obs returned_to_single e)
          next
            case False
            then show ?thesis using Cons.prems(2,3,4) a
              by (simp add: obs returned_to_single e)
          qed
        qed
      qed
    next
      case (CloseSub j)
      show ?thesis
      proof (cases "j < length (subs w)")
        case False
        then show ?thesis using CloseSub Inr res Cons.prems(2,3,4) by auto
      next
        case True
        then have c: "Close w j = Inr w1" and obs: "obs = []"
          using CloseSub Inr res by (auto split: sum.splits)
        show ?thesis using Close_result [OF c] Cons.prems(2,3,4) by (simp add: obs)
      qed
    qed
    have "set (returned_to i (fst (exec w1 xs))) \<subseteq> insert None S"
      using wf1 inv S by (intro Cons.IH) simp_all
    then show ?thesis using inv Inr res by (auto split: prod.splits)
  qed
qed

lemma update_True_nth: "c < length xs \<Longrightarrow> xs ! c \<Longrightarrow> xs[d := True] ! c"
  by (cases "d = c") auto

lemma step_keeps_closed:
  assumes "i < length (subs w)" and "closeCh (subs w ! i) < length (chans w)"
    and "chans w ! closeCh (subs w ! i)" and "step w x = Inr (obs, w1)"
  shows "i < length (subs w1) \<and> closeCh (subs w1 ! i) = closeCh (subs w ! i) \<and>
         closeCh (subs w1 ! i) < length (chans w1) \<and> chans w1 ! closeCh (subs w1 ! i)"
proof (cases x)
  case (Push ev)
  then show ?thesis using assms by auto
next
  case Subscribe
  then show ?thesis using assms by (auto simp: subscribe_eq nth_append)
next
  case (Get j)
  then show ?thesis using assms
    by (auto simp: GetEvent_def loop_body_def Let_def nth_list_update
             split: if_splits sum.splits goroutine.splits option.splits)
next
  case (CloseSub j)
  then show ?thesis using assms
    by (auto simp: Close_def Let_def update_True_nth split: if_splits sum.splits)
qed

lemma exec_keeps_closed:
  assumes "i < length (subs w)" and "closeCh (subs w ! i) < length (chans w)"
    and "chans w ! closeCh (subs w ! i)" and "exec w ops = (log, Inr w1)"
  shows "i < length (subs w1) \<and> chans w1 ! closeCh (subs w1 ! i)"
  using assms
proof (induction ops arbitrary: w log)
  case Nil
  then show ?case by simp
next
  case (Cons x xs)
  from Cons.prems(4) obtain obs w2 log2 where
    s: "step w x = Inr (obs, w2)" and e: "exec w2 xs = (log2, Inr w1)"
    by (auto split: sum.splits prod.splits)
  have k: "i < length (subs w2)" "closeCh (subs w2 ! i) < length (chans w2)"
    "chans w2 ! closeCh (subs w2 ! i)"
    using step_keeps_closed [OF Cons.prems(1,2,3) s] by blast+
  from k e show ?case by (rule Cons.IH)
qed

lemma Close_Close:
  assumes "well_formed w" and "i < length (subs w)" and "\<not> chans w ! closeCh (subs w ! i)"
  shows "\<exists>w1. Close w i = Inr w1 \<and> i < length (subs w1) \<and> 
               closeCh (subs w1 ! i) < length (chans w1) \<and> chans w1 ! closeCh (subs w1 ! i)"
proof -
  have "closeCh (subs w ! i) < length (chans w)"
    using wf_sub_ok [OF assms(1,2)] by (simp add: sub_ok_def)
  then show ?thesis using assms(2,3) by (simp add: Close_def Let_def)
qed

text \<open>As long as nothing is pushed the stream has no head.\<close>

lemma step_head:
  assumes "step w x = Inr (obs, w1)" and "\<forall>ev. x \<noteq> Push ev"
  shows "head (stream w1) = head (stream w)"
proof (cases x)
  case (Push ev)
  then show ?thesis using assms by simp
next
  case Subscribe
  then show ?thesis using assms by (auto simp: subscribe_eq)
next
  case (Get j)
  then show ?thesis using assms
    by (auto simp: GetEvent_def loop_body_def Let_def
             split: if_splits sum.splits goroutine.splits option.splits)
next
  case (CloseSub j)
  then show ?thesis using assms Close_result [of w j]
    by (auto split: if_splits sum.splits)
qed

lemma exec_head:
  "pushed ops = [] \<Longrightarrow> exec w ops = (log, Inr w1) \<Longrightarrow> head (stream w1) = head (stream w)"
proof (induction ops arbitrary: w log)
  case Nil
  then show ?case by simp
next
  case (Cons x xs)
  from Cons.prems(2) obtain obs w2 log2 where
    s: "step w x = Inr (obs, w2)" and e: "exec w2 xs = (log2, Inr w1)"
    by (auto split: sum.splits prod.splits)
  have x: "\<forall>ev. x \<noteq> Push ev" and xs: "pushed xs = []"
    using Cons.prems(1) by (auto simp: pushed_Cons)
  have "head (stream w1) = head (stream w2)" using xs e by (rule Cons.IH)
  then show ?case using step_head [OF s x] by simp
qed

lemma never_pushed_head_nil:
  assumes "pushed ops = []" and "exec init ops = (log, Inr w)"
  shows "well_formed w \<and> head (stream w) = None"
  using exec_head [OF assms] well_formed_reachable [OF assms(2)] by (simp add: init_def)

section \<open>The claims\<close>

text \<open>Unfolding the operations on a concrete world.\<close>

lemmas ev = init_def push_def subscribe_def Head_def registered_def notify_def GetEvent_def
  loop_body_def Close_def Let_def well_formed_def links_def sub_ok_def ref_ok_def

subsection \<open>Event\<close>

text \<open>
  Claim C9. For an event whose \<^verbatim>\<open>NewChain\<close> is not empty, \<^verbatim>\<open>Header()\<close> returns the
  last element of \<^verbatim>\<open>NewChain\<close>. When \<^verbatim>\<open>NewChain\<close> is empty (a nil slice or a slice
  of length 0), the index \<open>-1\<close> is out of range and the call panics; so the panic
  cannot happen when \<^verbatim>\<open>NewChain\<close> is not empty.
\<close>

theorem Header_last:
  "(NewChain e = Some xs \<longrightarrow> xs \<noteq> [] \<longrightarrow> Header e = Inr (last xs)) \<and>
   (slice_len (NewChain e) = 0 \<longrightarrow> Header e = Inl IndexOutOfRange)"
  by (auto simp: Header_def slice_index_def slice_len_def last_conv_nth nat_pred_len
           split: option.splits)

theorem Header_last_witness:
  "Header \<lparr>OldChain = None, NewChain = Some [Some 3, Some 4], Difficulty = None,
           Type = EventHead, Source = ''syncer''\<rparr> = Inr (Some 4) \<and>
   slice_len (NewChain \<lparr>OldChain = None, NewChain = Some [], Difficulty = None,
           Type = EventHead, Source = ''syncer''\<rparr>) = 0 \<and>
   Header \<lparr>OldChain = None, NewChain = Some [], Difficulty = None,
           Type = EventHead, Source = ''syncer''\<rparr> = Inl IndexOutOfRange \<and>
   Header \<lparr>OldChain = None, NewChain = None, Difficulty = None,
           Type = EventHead, Source = ''syncer''\<rparr> = Inl IndexOutOfRange"
  using Header_last [of "\<lparr>OldChain = None, NewChain = Some [Some 3, Some 4], Difficulty = None,
           Type = EventHead, Source = ''syncer''\<rparr>" "[Some 3, Some 4]"]
    Header_last [of "\<lparr>OldChain = None, NewChain = Some [], Difficulty = None,
           Type = EventHead, Source = ''syncer''\<rparr>"]
    Header_last [of "\<lparr>OldChain = None, NewChain = None, Difficulty = None,
           Type = EventHead, Source = ''syncer''\<rparr>"]
  by (simp add: slice_len_def)

text \<open>
  Claim C10. For a big integer \<open>d\<close> (the cell \<open>a\<close> of the store \<open>bs\<close>),
  \<^verbatim>\<open>e.SetDifficulty(d)\<close> makes \<^verbatim>\<open>e.Difficulty\<close> point to a cell \<open>z\<close> other than
  \<open>a\<close> that holds the value of \<open>d\<close>; the caller's \<open>d\<close> keeps its value, and
  whatever the caller writes into \<open>d\<close> afterwards, the cell \<open>z\<close> still holds the
  value \<open>d\<close> had at the call.
\<close>

theorem SetDifficulty_copy:
  assumes "a < length bs"
  shows "\<exists>z bs1 e1. SetDifficulty bs e (Some a) = Inr (bs1, e1) \<and> Difficulty e1 = Some z \<and>
           z \<noteq> a \<and> z < length bs1 \<and> bs1 ! z = bs ! a \<and> bs1 ! a = bs ! a \<and>
           (\<forall>v. mutate bs1 a v ! z = bs ! a)"
proof -
  let ?z = "length bs" and ?bs1 = "bs @ [bs ! a]"
  have "SetDifficulty bs e (Some a) = Inr (?bs1, e\<lparr>Difficulty := Some ?z\<rparr>)"
    using assms by (rule SetDifficulty_Some)
  moreover have "?z \<noteq> a" "?z < length ?bs1" "?bs1 ! ?z = bs ! a" "?bs1 ! a = bs ! a"
    using assms by (simp_all add: nth_append)
  moreover have "\<forall>v. mutate ?bs1 a v ! ?z = bs ! a"
    using assms by (simp add: mutate_def nth_append)
  ultimately show ?thesis by (intro exI[of _ ?z] exI[of _ ?bs1] exI[of _ "e\<lparr>Difficulty := Some ?z\<rparr>"]) simp
qed

theorem SetDifficulty_copy_witness:
  "(0::nat) < length [42::int] \<and>
   SetDifficulty [42] \<lparr>OldChain = None, NewChain = None, Difficulty = None,
           Type = EventHead, Source = ''sealer''\<rparr> (Some 0) =
     Inr ([42, 42], \<lparr>OldChain = None, NewChain = None, Difficulty = Some 1,
           Type = EventHead, Source = ''sealer''\<rparr>) \<and>
   mutate [42, 42] 0 (7::int) ! 1 = 42"
  using SetDifficulty_copy [of 0 "[42]" "\<lparr>OldChain = None, NewChain = None, Difficulty = None,
           Type = EventHead, Source = ''sealer''\<rparr>"]
  by (simp add: SetDifficulty_def mutate_def)

text \<open>
  Claim C5. For a header \<open>h\<close> (the cell \<open>a\<close> of the store \<open>hs\<close>) and any event
  \<open>e\<close>, whether its \<^verbatim>\<open>NewChain\<close> is nil, empty or not, \<^verbatim>\<open>e.AddNewHeader(h)\<close>
  succeeds, and \<^verbatim>\<open>Header()\<close> of the event then returns a pointer \<open>z\<close> other than
  \<open>a\<close> to a header equal to \<open>h\<close>; whatever the caller writes into \<open>h\<close>
  afterwards, the header at \<open>z\<close> is the one \<open>h\<close> was at the call. The copy itself
  is \<open>Copy\<close>, modelled from the spec.
\<close>

theorem AddNewHeader_Header_copy:
  assumes "a < length hs"
  shows "\<exists>z hs1 e1. AddNewHeader hs e (Some a) = Inr (hs1, e1) \<and>
           Header e1 = Inr (Some z) \<and>
           z \<noteq> a \<and> z < length hs1 \<and> hs1 ! z = hs ! a \<and> hs1 ! a = hs ! a \<and>
           (\<forall>v. mutate hs1 a v ! z = hs ! a)"
  using assms
  by (auto simp: AddNewHeader_def Copy_def Header_def slice_index_def slice_len_def
                 append_slice_def mutate_def nth_append split: option.splits)

theorem AddNewHeader_Header_copy_witness:
  "(0::nat) < length [7::nat] \<and>
   AddNewHeader [7::nat] \<lparr>OldChain = None, NewChain = None, Difficulty = None,
           Type = EventHead, Source = ''syncer''\<rparr> (Some 0) =
     Inr ([7, 7], \<lparr>OldChain = None, NewChain = Some [Some 1], Difficulty = None,
           Type = EventHead, Source = ''syncer''\<rparr>) \<and>
   Header \<lparr>OldChain = None, NewChain = Some [Some 1], Difficulty = None,
           Type = EventHead, Source = ''syncer''\<rparr> = Inr (Some 1) \<and>
   mutate [7, 7] 0 (9::nat) ! 1 = 7 \<and>
   AddNewHeader [7::nat, 8] \<lparr>OldChain = None, NewChain = Some [Some 0], Difficulty = None,
           Type = EventHead, Source = ''syncer''\<rparr> (Some 1) =
     Inr ([7, 8, 8], \<lparr>OldChain = None, NewChain = Some [Some 0, Some 2], Difficulty = None,
           Type = EventHead, Source = ''syncer''\<rparr>)"
  using AddNewHeader_Header_copy [of 0 "[7::nat]" "\<lparr>OldChain = None, NewChain = None, Difficulty = None,
           Type = EventHead, Source = ''syncer''\<rparr>"]
  by (simp add: AddNewHeader_def Copy_def Header_def slice_index_def slice_len_def
                append_slice_def mutate_def)

subsection \<open>The stream and its subscriptions\<close>

text \<open>
  Claim C1. A subscription made before \<open>N\<close> pushes should see these \<open>N\<close> events,
  in order, each once. That holds for a subscription made on a stream that already
  has an entry (\<open>gets_after_subscribe\<close>: the answers of \<open>N + k\<close> calls are the
  \<open>N\<close> events and then \<open>k\<close> times \<open>Blocked\<close>). On a stream without an entry it
  fails: \<^verbatim>\<open>subscribe\<close> stores the nil head as the position, the push after it
  leaves the position nil, and \<^verbatim>\<open>GetEvent\<close> reads \<^verbatim>\<open>s.elem.next\<close> through it.
\<close>

theorem subscribe_empty_then_push_GetEvent_panics:
  "exec init [Subscribe, Push (Some 0), Get 0] = ([], Inl NilDereference)"
  by (simp add: ev)

text \<open>
  The part of C1 that holds. When the stream has an entry at the time of
  \<^verbatim>\<open>subscribe\<close>, the subscription made there, after \<open>N\<close> pushes, answers
  \<open>N + k\<close> successive \<^verbatim>\<open>GetEvent\<close> calls with the \<open>N\<close> pushed events, in push
  order, and then blocks: it sees these events and no others, each once.
\<close>

theorem cursor_observes_pushes:
  assumes "well_formed w" and "head (stream w) \<noteq> None" and "subscribe w = (i, w1)"
  shows "\<exists>w2. gets (foldl push w1 evs) i (length evs + k) =
                 Inr (map Returned evs @ replicate k Blocked, w2)"
  using assms by (rule gets_after_subscribe)

theorem cursor_observes_pushes_witness:
  "well_formed (push init (Some 1)) \<and> head (stream (push init (Some 1))) \<noteq> None \<and>
   subscribe (push init (Some 1)) = (0, snd (subscribe (push init (Some 1)))) \<and>
   (\<exists>w2. gets (foldl push (snd (subscribe (push init (Some 1)))) [Some 2, Some 3]) 0
            (Suc (Suc (Suc (Suc 0)))) =
          Inr ([Returned (Some 2), Returned (Some 3), Blocked, Blocked], w2))"
  using cursor_observes_pushes [of "push init (Some 1)" 0 "snd (subscribe (push init (Some 1)))"
      "[Some 2, Some 3]" "Suc (Suc 0)"]
  by (simp add: ev)

text \<open>
  Claim C2, as the code has it. The claim says that after \<^verbatim>\<open>Close\<close> every
  \<^verbatim>\<open>GetEvent\<close> returns nil at once, also with entries still to consume. The loop
  of \<^verbatim>\<open>GetEvent\<close> looks at \<^verbatim>\<open>s.elem.next\<close> before it looks at \<^verbatim>\<open>closeCh\<close>. So
  what holds is: for a subscription whose position is an entry \<open>a\<close> and whose owner
  is not inside \<^verbatim>\<open>GetEvent\<close>, after \<^verbatim>\<open>Close\<close> the calls never block; they return
  the events of the entries after \<open>a\<close>, in order, and nil from then on.
\<close>

theorem GetEvent_after_Close_drains_then_nil:
  assumes "well_formed w0" and "i < length (subs w0)" and "gos w0 ! i = Idle"
    and "elem (subs w0 ! i) = Some a" and "Close w0 i = Inr w"
  shows "\<exists>w1. gets w i k =
           Inr (take k (map Returned (drop (Suc a) (map event (elems w0))) @ replicate k (Returned None)), w1)"
proof -
  have ok: "closeCh (subs w0 ! i) < length (chans w0)"
    using wf_sub_ok [OF assms(1,2)] by (simp add: sub_ok_def)
  have w: "w = w0\<lparr>chans := (chans w0)[closeCh (subs w0 ! i) := True]\<rparr>"
    using assms(3,5) by (simp add: Close_def Let_def split: if_splits)
  have "well_formed w" using assms(1,5) by (rule wf_Close)
  moreover have "i < length (subs w)" "gos w ! i = Idle" "elem (subs w ! i) = Some a"
    using assms(2,3,4) by (simp_all add: w)
  moreover have "chans w ! closeCh (subs w ! i)" using ok by (simp add: w)
  ultimately have "\<exists>w1. gets w i k =
           Inr (take k (map Returned (drop (Suc a) (map event (elems w))) @ replicate k (Returned None)), w1)"
    by (rule gets_closed)
  then show ?thesis by (simp add: w)
qed

theorem GetEvent_after_Close_drains_then_nil_witness:
  "well_formed (push (snd (subscribe (push init (Some 1)))) (Some 2)) \<and>
   0 < length (subs (push (snd (subscribe (push init (Some 1)))) (Some 2))) \<and>
   gos (push (snd (subscribe (push init (Some 1)))) (Some 2)) ! 0 = Idle \<and>
   elem (subs (push (snd (subscribe (push init (Some 1)))) (Some 2)) ! 0) = Some 0 \<and>
   Close (push (snd (subscribe (push init (Some 1)))) (Some 2)) 0 =
     Inr ((push (snd (subscribe (push init (Some 1)))) (Some 2))\<lparr>chans := [False, True]\<rparr>) \<and>
   (\<exists>w1. gets ((push (snd (subscribe (push init (Some 1)))) (Some 2))\<lparr>chans := [False, True]\<rparr>) 0
            (Suc (Suc (Suc 0))) =
          Inr ([Returned (Some 2), Returned None, Returned None], w1))"
  using GetEvent_after_Close_drains_then_nil
    [of "push (snd (subscribe (push init (Some 1)))) (Some 2)" 0 0
        "(push (snd (subscribe (push init (Some 1)))) (Some 2))\<lparr>chans := [False, True]\<rparr>"
        "Suc (Suc (Suc 0))"]
  by (simp add: ev)

text \<open>
  Claim C2 as stated fails: push, subscribe, push of the event \<open>Some 1\<close>, close;
  the next \<^verbatim>\<open>GetEvent\<close> returns that event, not nil.
\<close>

theorem GetEvent_after_Close_returns_pending:
  "fst (exec init [Push (Some 0), Subscribe, Push (Some 1), CloseSub 0, Get 0]) =
     [(0, Returned (Some 1))]"
  by (simp add: ev)

text \<open>
  Claim C3. \<^verbatim>\<open>subscribe\<close> on a stream that has no entry (no event was ever pushed:
  the head is nil) returns a subscription whose position \<^verbatim>\<open>elem\<close> is nil, and its
  \<^verbatim>\<open>GetEvent\<close> panics with a nil dereference instead of blocking; it still does
  after any number of pushes, which leave the position nil. The worlds with a nil
  head include every world built from the empty stream without a push
  (\<open>never_pushed_head_nil\<close>).
\<close>

theorem subscribe_on_empty_log_nil_position:
  assumes "well_formed w" and "head (stream w) = None" and "subscribe w = (i, w1)"
  shows "elem (subs w1 ! i) = None \<and> GetEvent w1 i = Inl NilDereference \<and>
         (\<forall>evs. GetEvent (foldl push w1 evs) i = Inl NilDereference)"
proof -
  note s = new_subscription [OF assms(1,3)]
  have e: "elem (subs w1 ! i) = None" using s(5) assms(2) by simp
  have "GetEvent (foldl push w1 evs) i = Inl NilDereference" for evs
    using s e by (intro GetEvent_nil wf_foldl_push gos_foldl_push_Idle) simp_all
  from this [of "[]"] this e show ?thesis by simp
qed

theorem subscribe_on_empty_log_nil_position_witness:
  "well_formed init \<and> head (stream init) = None \<and>
   subscribe init = (0, snd (subscribe init)) \<and>
   elem (subs (snd (subscribe init)) ! 0) = None \<and>
   GetEvent (snd (subscribe init)) 0 = Inl NilDereference \<and>
   GetEvent (foldl push (snd (subscribe init)) [Some 5, Some 6]) 0 = Inl NilDereference"
  using subscribe_on_empty_log_nil_position [of init 0 "snd (subscribe init)"]
  by (simp add: ev)

text \<open>
  Claim C4. A subscription never sees an event pushed before its \<^verbatim>\<open>subscribe\<close>.
  Whatever the history \<open>ops\<close> after the \<^verbatim>\<open>subscribe\<close> (pushes, other
  subscriptions, calls of \<^verbatim>\<open>GetEvent\<close> and \<^verbatim>\<open>Close\<close> on any subscription), every
  pointer that \<^verbatim>\<open>GetEvent\<close> returns to the new subscription is nil (the end of the
  stream) or an event pushed in \<open>ops\<close>; so an event \<open>E1\<close> that is not nil and not
  pushed again is never returned. And after push of \<open>E1\<close>, \<^verbatim>\<open>subscribe\<close>, push of
  \<open>E2\<close>, the first \<^verbatim>\<open>GetEvent\<close> returns \<open>E2\<close>.
\<close>

theorem cursor_never_sees_earlier_events:
  assumes "well_formed w" and "subscribe w = (i, w1)"
  shows "set (returned_to i (fst (exec w1 ops))) \<subseteq> insert None (set (pushed ops)) \<and>
         (\<forall>E1. E1 \<noteq> None \<and> E1 \<notin> set (pushed ops) \<longrightarrow>
               E1 \<notin> set (returned_to i (fst (exec w1 ops)))) \<and>
         (\<forall>w0 E1 E2. well_formed w0 \<and> w = push w0 E1 \<longrightarrow>
             (\<exists>w2. GetEvent (push w1 E2) i = Inr (Returned E2, w2)))"
proof -
  note s = new_subscription [OF assms]
  have pos: "\<forall>a. elem (subs w1 ! i) = Some a \<longrightarrow> length (elems w) \<le> Suc a"
    using s(5) wf_head [OF assms(1)] by (auto split: if_splits)
  have "set (returned_to i (fst (exec w1 ops))) \<subseteq> insert None (set (pushed ops))"
    using s(3,2) pos by (rule returned_after) (auto simp: s(7))
  moreover have "\<exists>w2. GetEvent (push w1 E2) i = Inr (Returned E2, w2)"
    if "well_formed w0" "w = push w0 E1" for w0 E1 E2
  proof -
    have "head (stream w) \<noteq> None" using that(2) by simp
    then obtain w2 where "gets (foldl push w1 [E2]) i (length [E2] + 0) = Inr (map Returned [E2] @ replicate 0 Blocked, w2)"
      using gets_after_subscribe [OF assms(1) _ assms(2), of "[E2]" 0] by blast
    then show ?thesis by (auto split: sum.splits)
  qed
  ultimately show ?thesis by blast
qed

theorem cursor_never_sees_earlier_events_witness:
  "well_formed init \<and> well_formed (push init (Some 1)) \<and>
   subscribe (push init (Some 1)) = (0, snd (subscribe (push init (Some 1)))) \<and>
   pushed [Push (Some 2), Get 0, Get 0, CloseSub 0, Get 0] = [Some 2] \<and>
   returned_to 0 (fst (exec (snd (subscribe (push init (Some 1))))
      [Push (Some 2), Get 0, Get 0, CloseSub 0, Get 0])) = [Some 2, None] \<and>
   Some 1 \<notin> set (returned_to 0 (fst (exec (snd (subscribe (push init (Some 1))))
      [Push (Some 2), Get 0, Get 0, CloseSub 0, Get 0]))) \<and>
   (\<exists>w2. GetEvent (push (snd (subscribe (push init (Some 1)))) (Some 2)) 0 =
            Inr (Returned (Some 2), w2))"
  using cursor_never_sees_earlier_events
    [of "push init (Some 1)" 0 "snd (subscribe (push init (Some 1)))"
        "[Push (Some 2), Get 0, Get 0, CloseSub 0, Get 0]"]
  by (simp add: ev pushed_def returned_to_def)

text \<open>
  Claim C6. Pushing the events \<open>evs\<close> one after the other adds one entry for each
  and removes none; every entry that was there keeps its event and its place; a
  forward link that is set stays what it is; in the end each entry but the last
  points to the entry allocated right after it, the last has no successor and is
  the head: a singly linked list in push order. No other operation changes the
  entries.
\<close>

theorem push_append_only:
  assumes "well_formed w"
  shows "length (elems (foldl push w evs)) = length (elems w) + length evs \<and>
         map event (elems (foldl push w evs)) = map event (elems w) @ evs \<and>
         (\<forall>a n. a < length (elems w) \<and> next (elems w ! a) = Some n \<longrightarrow>
                next (elems (foldl push w evs) ! a) = Some n) \<and>
         (\<forall>a < length (elems (foldl push w evs)).
            next (elems (foldl push w evs) ! a) =
              (if Suc a < length (elems (foldl push w evs)) then Some (Suc a) else None)) \<and>
         head (stream (foldl push w evs)) =
           (if elems (foldl push w evs) = [] then None
            else Some (length (elems (foldl push w evs)) - 1)) \<and>
         (\<forall>x obs w1. step w x = Inr (obs, w1) \<and> (\<forall>ev. x \<noteq> Push ev) \<longrightarrow> elems w1 = elems w)"
proof -
  let ?W = "foldl push w evs"
  have wfW: "well_formed ?W" using assms by (rule wf_foldl_push)
  have ev: "map event (elems ?W) = map event (elems w) @ evs"
    using assms by (rule map_event_foldl_push)
  then have "length (map event (elems ?W)) = length (elems w) + length evs" by simp
  then have len: "length (elems ?W) = length (elems w) + length evs" by simp
  have keep: "next (elems ?W ! a) = Some n" if "a < length (elems w)" "next (elems w ! a) = Some n" for a n
  proof -
    have "n = Suc a \<and> Suc a < length (elems w)"
      using wf_next [OF assms that(1)] that(2) by (auto split: if_splits)
    then show ?thesis using wf_next [OF wfW, of a] len by simp
  qed
  have other: "elems w1 = elems w" if "step w x = Inr (obs, w1)" "\<forall>ev. x \<noteq> Push ev" for x obs w1
  proof (cases x)
    case (Push ev)
    then show ?thesis using that by simp
  next
    case Subscribe
    then show ?thesis using that by (auto simp: subscribe_eq)
  next
    case (Get j)
    then show ?thesis using that GetEvent_result [OF assms, of j]
      by (auto split: if_splits sum.splits)
  next
    case (CloseSub j)
    then show ?thesis using that Close_result [of w j]
      by (auto split: if_splits sum.splits)
  qed
  show ?thesis
    using len ev keep wf_next [OF wfW] wf_head [OF wfW] other by blast
qed

theorem push_append_only_witness:
  "well_formed (push (push init (Some 1)) (Some 2)) \<and>
   elems (push (push init (Some 1)) (Some 2)) =
     [\<lparr>event = Some 1, next = Some 1\<rparr>, \<lparr>event = Some 2, next = None\<rparr>] \<and>
   elems (foldl push (push (push init (Some 1)) (Some 2)) [Some 3, Some 4]) =
     [\<lparr>event = Some 1, next = Some 1\<rparr>, \<lparr>event = Some 2, next = Some 2\<rparr>,
      \<lparr>event = Some 3, next = Some 3\<rparr>, \<lparr>event = Some 4, next = None\<rparr>] \<and>
   head (stream (foldl push (push (push init (Some 1)) (Some 2)) [Some 3, Some 4])) = Some 3 \<and>
   step (push (push init (Some 1)) (Some 2)) Subscribe =
     Inr ([], snd (subscribe (push (push init (Some 1)) (Some 2)))) \<and>
   elems (snd (subscribe (push (push init (Some 1)) (Some 2)))) =
     elems (push (push init (Some 1)) (Some 2))"
  using push_append_only [of "push (push init (Some 1)) (Some 2)" "[Some 3, Some 4]"]
  by (simp add: ev)

text \<open>
  Claim C7. \<^verbatim>\<open>push\<close> allocates an entry holding the event and no successor; when
  there is a head it sets the head's forward link to the new entry; the new entry
  becomes the head; and for each registered update channel the non-blocking send
  wakes the consumer when it is blocked in its select, and is dropped otherwise,
  leaving that consumer as it was. Subscriptions, channels and the registered
  list are untouched. \<open>push\<close> has no outcome but the new world: no state of a
  subscriber keeps it from returning.
\<close>

theorem push_links_and_notifies:
  assumes "well_formed w"
  shows "elems (push w ev) =
           (case head (stream w) of
              None \<Rightarrow> elems w
            | Some h \<Rightarrow> (elems w)[h := (elems w ! h)\<lparr>next := Some (length (elems w))\<rparr>])
           @ [\<lparr>event = ev, next = None\<rparr>] \<and>
         head (stream (push w ev)) = Some (length (elems w)) \<and>
         length (gos (push w ev)) = length (gos w) \<and>
         (\<forall>k < length (subs w).
            gos (push w ev) ! k =
              (if updateCh (subs w ! k) \<in> set (registered w) \<and> gos w ! k = Parked
               then GotUpdate else gos w ! k)) \<and>
         subs (push w ev) = subs w \<and> chans (push w ev) = chans w \<and>
         updateChs (stream (push w ev)) = updateChs (stream w)"
proof -
  have "elems (push w ev) =
           (case head (stream w) of
              None \<Rightarrow> elems w
            | Some h \<Rightarrow> (elems w)[h := (elems w ! h)\<lparr>next := Some (length (elems w))\<rparr>])
           @ [\<lparr>event = ev, next = None\<rparr>]"
    using wf_head [OF assms] by (cases "elems w = []") (simp_all add: elems_push_well_formed [OF assms])
  moreover have "\<forall>k < length (subs w).
            gos (push w ev) ! k =
              (if updateCh (subs w ! k) \<in> set (registered w) \<and> gos w ! k = Parked
               then GotUpdate else gos w ! k)"
    using wf_len [OF assms] by (simp add: gos_push_nth)
  ultimately show ?thesis using wf_len [OF assms] by simp
qed

theorem push_links_and_notifies_witness:
  "well_formed
     \<lparr>elems = [\<lparr>event = Some 1, next = None\<rparr>], chans = [False, False, False, False],
      subs = [\<lparr>updateCh = 0, closeCh = 1, elem = Some 0\<rparr>,
              \<lparr>updateCh = 2, closeCh = 3, elem = Some 0\<rparr>],
      gos = [Parked, Idle], stream = \<lparr>head = Some 0, updateChs = Some [0, 2]\<rparr>\<rparr> \<and>
   push
     \<lparr>elems = [\<lparr>event = Some 1, next = None\<rparr>], chans = [False, False, False, False],
      subs = [\<lparr>updateCh = 0, closeCh = 1, elem = Some 0\<rparr>,
              \<lparr>updateCh = 2, closeCh = 3, elem = Some 0\<rparr>],
      gos = [Parked, Idle], stream = \<lparr>head = Some 0, updateChs = Some [0, 2]\<rparr>\<rparr> (Some 2) =
     \<lparr>elems = [\<lparr>event = Some 1, next = Some 1\<rparr>, \<lparr>event = Some 2, next = None\<rparr>],
      chans = [False, False, False, False],
      subs = [\<lparr>updateCh = 0, closeCh = 1, elem = Some 0\<rparr>,
              \<lparr>updateCh = 2, closeCh = 3, elem = Some 0\<rparr>],
      gos = [GotUpdate, Idle], stream = \<lparr>head = Some 1, updateChs = Some [0, 2]\<rparr>\<rparr>"
  using push_links_and_notifies
    [of "\<lparr>elems = [\<lparr>event = Some 1, next = None\<rparr>], chans = [False, False, False, False],
      subs = [\<lparr>updateCh = 0, closeCh = 1, elem = Some 0\<rparr>,
              \<lparr>updateCh = 2, closeCh = 3, elem = Some 0\<rparr>],
      gos = [Parked, Idle], stream = \<lparr>head = Some 0, updateChs = Some [0, 2]\<rparr>\<rparr>" "Some 2"]
  by (simp add: ev)

text \<open>
  Claim C8. \<^verbatim>\<open>Close\<close> on a subscription whose \<^verbatim>\<open>closeCh\<close> is not closed succeeds;
  a second \<^verbatim>\<open>Close\<close> on it panics (close of closed channel), right away and
  after any further history.
\<close>

theorem Close_twice_panics:
  assumes "well_formed w" and "i < length (subs w)" and "\<not> chans w ! closeCh (subs w ! i)"
  shows "\<exists>w1. Close w i = Inr w1 \<and> Close w1 i = Inl CloseOfClosedChannel \<and>
              (\<forall>ops log w2. exec w1 ops = (log, Inr w2) \<longrightarrow> Close w2 i = Inl CloseOfClosedChannel)"
proof -
  obtain w1 where w1: "Close w i = Inr w1" "i < length (subs w1)"
    "closeCh (subs w1 ! i) < length (chans w1)" "chans w1 ! closeCh (subs w1 ! i)"
    using Close_Close [OF assms] by auto
  have "Close w2 i = Inl CloseOfClosedChannel" if "exec w1 ops = (log, Inr w2)" for ops log w2
    using exec_keeps_closed [OF w1(2,3,4) that] by (simp add: Close_def Let_def)
  moreover have "Close w1 i = Inl CloseOfClosedChannel" using w1(4) by (simp add: Close_def Let_def)
  ultimately show ?thesis using w1(1) by blast
qed

theorem Close_twice_panics_witness:
  "well_formed (snd (subscribe (push init (Some 1)))) \<and>
   0 < length (subs (snd (subscribe (push init (Some 1))))) \<and>
   \<not> chans (snd (subscribe (push init (Some 1)))) !
       closeCh (subs (snd (subscribe (push init (Some 1)))) ! 0) \<and>
   Close (snd (subscribe (push init (Some 1)))) 0 =
     Inr ((snd (subscribe (push init (Some 1))))\<lparr>chans := [False, True]\<rparr>) \<and>
   Close ((snd (subscribe (push init (Some 1))))\<lparr>chans := [False, True]\<rparr>) 0 =
     Inl CloseOfClosedChannel \<and>
   (\<exists>log w2. exec ((snd (subscribe (push init (Some 1))))\<lparr>chans := [False, True]\<rparr>)
                [Push (Some 2), Get 0] = (log, Inr w2) \<and>
              Close w2 0 = Inl CloseOfClosedChannel)"
  using Close_twice_panics [of "snd (subscribe (push init (Some 1)))" 0]
  by (simp add: ev)

end
